theory Spec2Isabelle
  imports Main "HOL-Library.Word"
begin

unbundle bit_operations_syntax

section \<open>Machine state of util.c on the ATmega128\<close>

text \<open>
  The target is an 8-bit AVR: \<open>char\<close> and the I/O registers are 8 bits wide,
  \<open>int\<close> and \<open>unsigned int\<close> are 16 bits wide. Unsigned arithmetic wraps, which
  is what the word types do.
\<close>

type_synonym u8 = "8 word"

type_synonym u16 = "16 word"

text \<open>
  The call log is a history variable: \<open>wait_ms\<close>, \<open>timer2_start\<close> and
  \<open>timer2_stop\<close> append an entry when they are entered and nothing ever reads it.
  It exists so that "this function was (not) invoked" can be stated about a run.
\<close>

datatype event = Ev_wait_ms u16 | Ev_timer2_start u8 | Ev_timer2_stop

text \<open>
  The globals and function-local statics of util.c, the I/O registers it touches,
  and the global interrupt enable flag of the status register that \<open>sei()\<close> sets.
  \<open>PINC\<close> holds the pin levels the environment presents during a call. The
  three \<open>init\<close> functions and the direction registers they set are left out.
\<close>

record state =
  timer2_tick :: u16
  old_value :: u8
  coil_position :: u16
  OCR2 :: u8
  TCCR2 :: u8
  TIMSK :: u8
  SREG_I :: bool
  PINC :: u8
  PORTE :: u8
  calls :: "event list"

section \<open>Timer 2: start, stop and the compare-match interrupt\<close>

text \<open>
  \<open>timer2_start\<close>: two independent \<open>if\<close> statements on \<open>unit\<close>, then \<open>sei()\<close>.
\<close>

definition timer2_start :: "u8 \<Rightarrow> state \<Rightarrow> state" where
  "timer2_start unit s =
    (let s0 = s\<lparr>calls := calls s @ [Ev_timer2_start unit]\<rparr>;
         s1 = s0\<lparr>timer2_tick := 0\<rparr>;
         s2 = (if unit = 0
               then (let t = s1\<lparr>TCCR2 := 0b00001011\<rparr>
                     in t\<lparr>TIMSK := TIMSK t OR 0b10000000\<rparr>)
               else s1);
         s3 = (if unit = 1
               then (let t = s2\<lparr>TCCR2 := 0b00001001\<rparr>
                     in t\<lparr>TIMSK := TIMSK t OR 0b10000000\<rparr>)
               else s2)
     in s3\<lparr>SREG_I := True\<rparr>)"

definition timer2_stop :: "state \<Rightarrow> state" where
  "timer2_stop s =
    (let s0 = s\<lparr>calls := calls s @ [Ev_timer2_stop]\<rparr>;
         s1 = s0\<lparr>TIMSK := TIMSK s0 AND NOT 0b10000000\<rparr>
     in s1\<lparr>TCCR2 := TCCR2 s1 AND 0b01111111\<rparr>)"

text \<open>The handler \<open>ISR (TIMER2_COMP_vect)\<close>: one wrapping increment.\<close>

definition TIMER2_COMP_isr :: "state \<Rightarrow> state" where
  "TIMER2_COMP_isr s = s\<lparr>timer2_tick := timer2_tick s + 1\<rparr>"

text \<open>
  Interrupt dispatch is hardware, not util.c: a compare match of timer 2 runs the
  handler only while the global interrupt flag and the OCIE2 bit (bit 7 of
  \<open>TIMSK\<close>) are both set.
\<close>

definition irq_enabled :: "state \<Rightarrow> bool" where
  "irq_enabled s = (SREG_I s \<and> bit (TIMSK s) 7)"

definition compare_match :: "state \<Rightarrow> state" where
  "compare_match s = (if irq_enabled s then TIMER2_COMP_isr s else s)"

section \<open>The blocking wait\<close>

text \<open>
  The target has no 16-bit load: a test of \<open>timer2_tick < time_val\<close> reads the
  volatile counter with two byte loads, the low byte first (the order of
  avr-gcc), and util.c does not switch the interrupt off around them.
\<close>

definition low_byte :: "u16 \<Rightarrow> u8" where
  "low_byte w = ucast w"

definition high_byte :: "u16 \<Rightarrow> u8" where
  "high_byte w = ucast (drop_bit 8 w)"

definition word16 :: "u8 \<Rightarrow> u8 \<Rightarrow> u16" where
  "word16 hi lo = push_bit 8 (ucast hi) OR ucast lo"

text \<open>
  The busy loop \<open>while (timer2_tick < time_val);\<close> only ends through the
  interrupt. Its environment is a schedule with one entry for each test of the
  loop condition. The entry tells where a compare match of the timer falls:
  nowhere (\<open>Quiet\<close>), before the test, since the test before it or since
  \<open>sei()\<close> for the first (\<open>Match_before\<close>), or between the two byte loads of
  the test (\<open>Match_within\<close>). The tick period (1 ms, 16000 clock cycles) is
  far longer than the loop, so a test meets at most one compare match, and the
  test that follows a \<open>Match_within\<close> one meets none and reads the counter
  whole: that entry stands for both tests. \<open>timer2_stop\<close> follows the test
  that ends the loop at once. The loop returns the part of the schedule it has
  not used. A schedule that ends before a test ends the loop gives \<open>None\<close>:
  the wait has not returned.
\<close>

datatype slot = Quiet | Match_before | Match_within

type_synonym schedule = "slot list"

fun wait_loop :: "schedule \<Rightarrow> u16 \<Rightarrow> state \<Rightarrow> (state \<times> schedule) option" where
  "wait_loop [] time_val s = None"
| "wait_loop (e # sched) time_val s =
     (let s1 = (if e = Match_before then compare_match s else s);
          lo = low_byte (timer2_tick s1);
          s2 = (if e = Match_within then compare_match s1 else s1);
          hi = high_byte (timer2_tick s2)
      in if word16 hi lo < time_val
         then (if e = Match_within \<and> \<not> timer2_tick s2 < time_val
               then Some (s2, sched)
               else wait_loop sched time_val s2)
         else Some (s2, sched))"

definition wait_ms :: "schedule \<Rightarrow> u16 \<Rightarrow> state \<Rightarrow> (state \<times> schedule) option" where
  "wait_ms sched time_val s =
    (let s0 = s\<lparr>calls := calls s @ [Ev_wait_ms time_val]\<rparr>;
         s1 = s0\<lparr>OCR2 := 250\<rparr>;
         s2 = s1\<lparr>timer2_tick := 0\<rparr>;
         s3 = timer2_start 0 s2
     in case wait_loop sched time_val s3 of
          None \<Rightarrow> None
        | Some (s4, rest) \<Rightarrow> Some (timer2_stop s4, rest))"

section \<open>Push buttons\<close>

text \<open>
  \<open>read_push_buttons\<close>: the \<open>for\<close> loop counts \<open>shift\<close> down from 5 and
  breaks at the first position whose input reads 0 (pressed, the inputs are active
  low). \<open>shift\<close> stays between -1 and 5, so the 16-bit \<open>int\<close> of the source
  never wraps and is an \<open>int\<close> here. The pin levels are those of \<open>PINC\<close> in the
  state for the whole scan. The result is \<open>shift + 1\<close> as a \<open>uint8_t\<close>.
\<close>

function scan_buttons :: "int \<Rightarrow> state \<Rightarrow> int" where
  "scan_buttons shift s =
    (if shift > -1
     then (if drop_bit (nat shift) (PINC s) AND 1 = 0 then shift
           else scan_buttons (shift - 1) s)
     else shift)"
  by pat_completeness auto
termination
  by (relation "measure (\<lambda>(shift, s). nat (shift + 1))") auto

declare scan_buttons.simps [simp del]

definition read_push_buttons :: "state \<Rightarrow> u8" where
  "read_push_buttons s = word_of_int (scan_buttons 5 s + 1)"

section \<open>Shaft encoder\<close>

text \<open>
  \<open>read_shaft_encoder\<close>: \<open>old_value\<close> is the function's static, \<open>new_value\<close> the
  two top bits of \<open>PINC\<close>. The two inner \<open>if\<close> statements are independent. The
  result is the \<open>int8_t\<close> rotation (-1 is \<open>0xFF\<close>) with the updated state.
\<close>

definition read_shaft_encoder :: "state \<Rightarrow> u8 \<times> state" where
  "read_shaft_encoder s =
    (let new_value = drop_bit 6 (PINC s);
         rotation = 0;
         rotation = (if old_value s = 0x03
                     then (let r = (if new_value = 0x01 then 1 else rotation)
                           in if new_value = 0x02 then - 1 else r)
                     else rotation)
     in (rotation, s\<lparr>old_value := new_value\<rparr>))"

section \<open>Stepper motor\<close>

text \<open>
  The clockwise and the counterclockwise loop have the same body but for the
  new coil position, \<open>cw_next\<close> in the one and \<open>ccw_next\<close> in the other;
  \<open>step_body\<close> is one pass through that body. \<open>coil_position\<close> is a 16-bit
  \<open>int\<close>: \<open><<\<close> is a left shift, \<open>>>\<close> on a signed value is the
  arithmetic right shift of avr-gcc. \<open>full_byte\<close> is a \<open>char\<close>, the low 8
  bits of \<open>coil_position << 4\<close>.
\<close>

definition cw_next :: "u16 \<Rightarrow> u16" where
  "cw_next c = (if c = 0b1000 then 0b0001 else push_bit 1 c)"

definition ccw_next :: "u16 \<Rightarrow> u16" where
  "ccw_next c = (if c = 0b0001 then 0b1000 else signed_drop_bit 1 c)"

definition step_body ::
  "(u16 \<Rightarrow> u16) \<Rightarrow> schedule \<Rightarrow> state \<Rightarrow> (state \<times> schedule) option" where
  "step_body next_pos sched s =
    (let s1 = s\<lparr>coil_position := next_pos (coil_position s)\<rparr>;
         s2 = s1\<lparr>PORTE := PORTE s1 AND 0x0F\<rparr>;
         full_byte = (ucast (push_bit 4 (coil_position s2) :: u16) :: u8);
         s3 = s2\<lparr>PORTE := PORTE s2 OR full_byte\<rparr>
     in wait_ms sched 2 s3)"

text \<open>
  \<open>for (i = 0; i < num_steps; i++)\<close> with signed 16-bit \<open>i\<close> and \<open>num_steps\<close>.
  Inside the loop \<open>i\<close> is below \<open>num_steps\<close>, so \<open>i++\<close> does not overflow.
\<close>

function for_steps ::
  "(schedule \<Rightarrow> state \<Rightarrow> (state \<times> schedule) option) \<Rightarrow> u16 \<Rightarrow> u16 \<Rightarrow>
   schedule \<Rightarrow> state \<Rightarrow> (state \<times> schedule) option" where
  "for_steps body i num_steps sched s =
    (if i <s num_steps
     then (case body sched s of
             None \<Rightarrow> None
           | Some (s', sched') \<Rightarrow> for_steps body (i + 1) num_steps sched' s')
     else Some (s, sched))"
  by pat_completeness auto
termination
proof (relation "measure (\<lambda>(body, i, n, sched, s). nat (sint n - sint i))")
  show "wf (measure (\<lambda>(body :: schedule \<Rightarrow> state \<Rightarrow> (state \<times> schedule) option,
               i :: u16, n :: u16, sched :: schedule, s :: state). nat (sint n - sint i)))"
    by simp
next
  fix body :: "schedule \<Rightarrow> state \<Rightarrow> (state \<times> schedule) option"
  fix i n :: u16 and sched sched' :: schedule and s s' :: state
  assume "i <s n"
  then have lt: "sint i < sint n" by (simp add: word_sless_alt)
  have ub: "sint n < 2 ^ 15" using sint_lt [of n] by simp
  have lb: "- (2 ^ 15) \<le> sint i" using sint_ge [of i] by simp
  have "sint (i + 1) = signed_take_bit 15 (sint i + 1)"
    by (simp add: sint_word_ariths)
  also have "\<dots> = sint i + 1"
    using lt ub lb by (intro signed_take_bit_int_eq_self) auto
  finally have "sint (i + 1) = sint i + 1" .
  then show "((body, i + 1, n, sched', s'), (body, i, n, sched, s))
      \<in> measure (\<lambda>(body, i, n, sched, s). nat (sint n - sint i))"
    using lt by simp
qed

declare for_steps.simps [simp del]

text \<open>
  \<open>move_stepper_motor_by_step\<close>: the clockwise loop for \<open>direction == 1\<close>, the
  counterclockwise loop for \<open>direction == -1\<close>, neither for any other value, and
  the final \<open>PORTE &= 0x0F\<close> in every case.
\<close>

definition move_stepper_motor_by_step ::
  "schedule \<Rightarrow> u16 \<Rightarrow> u16 \<Rightarrow> state \<Rightarrow> (state \<times> schedule) option" where
  "move_stepper_motor_by_step sched num_steps direction s =
    (case (if direction = 1 then for_steps (step_body cw_next) 0 num_steps sched s
           else if direction = - 1 then for_steps (step_body ccw_next) 0 num_steps sched s
           else Some (s, sched)) of
       None \<Rightarrow> None
     | Some (s', rest) \<Rightarrow> Some (s'\<lparr>PORTE := PORTE s' AND 0x0F\<rparr>, rest))"

section \<open>Schedules and the states in which the calls return\<close>

text \<open>
  \<open>ticks_in\<close> counts the compare matches of a schedule. \<open>after_ticks k\<close> is
  the schedule left once its \<open>k\<close>-th compare match has been delivered, and
  \<open>None\<close> when the schedule holds fewer than \<open>k\<close>.
\<close>

definition ticks_in :: "schedule \<Rightarrow> nat" where
  "ticks_in sched = length (filter (\<lambda>e. e \<noteq> Quiet) sched)"

fun after_ticks :: "nat \<Rightarrow> schedule \<Rightarrow> schedule option" where
  "after_ticks 0 sched = Some sched"
| "after_ticks (Suc k) [] = None"
| "after_ticks (Suc k) (e # sched) = after_ticks (if e = Quiet then Suc k else k) sched"

text \<open>
  The state in which \<open>wait_ms\<close> returns: that of \<open>timer2_stop\<close> after
  \<open>timer2_start\<close>, with the counter at the requested value.
\<close>

definition wait_done :: "u16 \<Rightarrow> state \<Rightarrow> state" where
  "wait_done tv s =
     timer2_stop ((timer2_start 0
       (s\<lparr>calls := calls s @ [Ev_wait_ms tv], OCR2 := 250, timer2_tick := 0\<rparr>))
       \<lparr>timer2_tick := tv\<rparr>)"

text \<open>
  \<open>pass_done\<close> is the state after one pass through a loop body whose wait has
  returned; \<open>steps_of\<close> is the number of passes a call makes; \<open>moved\<close> is
  the state in which the call returns.
\<close>

definition pass_done :: "(u16 \<Rightarrow> u16) \<Rightarrow> state \<Rightarrow> state" where
  "pass_done next_pos s =
     wait_done 2 (s\<lparr>coil_position := next_pos (coil_position s),
       PORTE := (PORTE s AND 0x0F) OR ucast (push_bit 4 (next_pos (coil_position s)))\<rparr>)"

definition steps_of :: "u16 \<Rightarrow> u16 \<Rightarrow> nat" where
  "steps_of num_steps direction =
     (if direction = 1 \<or> direction = - 1 then nat (sint num_steps) else 0)"

definition next_of :: "u16 \<Rightarrow> u16 \<Rightarrow> u16" where
  "next_of direction = (if direction = 1 then cw_next else ccw_next)"

definition moved :: "u16 \<Rightarrow> u16 \<Rightarrow> state \<Rightarrow> state" where
  "moved num_steps direction s =
     (let s' = (pass_done (next_of direction) ^^ steps_of num_steps direction) s
      in s'\<lparr>PORTE := PORTE s' AND 0x0F\<rparr>)"

text \<open>
  \<open>coil_after\<close> is the coil position a call leaves behind. \<open>rotate4_left\<close>
  and \<open>rotate4_right\<close> are the rotations by one position within four bits that
  the specification names, and \<open>one_hot4\<close> its four coil positions.
  \<open>run_calls\<close> makes a sequence of calls, each with its step count and
  direction, on one schedule; \<open>total_steps\<close> counts the loop passes of the
  sequence and \<open>moved_all\<close> is the state in which it returns. \<open>initial\<close>
  holds of the states in which the statics have their C initialisers; the
  registers are arbitrary.
\<close>

definition coil_after :: "schedule \<Rightarrow> u16 \<Rightarrow> u16 \<Rightarrow> state \<Rightarrow> u16 option" where
  "coil_after sched num_steps direction s =
     map_option (\<lambda>r. coil_position (fst r)) (move_stepper_motor_by_step sched num_steps direction s)"

definition rotate4_left :: "u16 \<Rightarrow> u16" where
  "rotate4_left c = (push_bit 1 c OR drop_bit 3 c) AND 0xF"

definition rotate4_right :: "u16 \<Rightarrow> u16" where
  "rotate4_right c = (drop_bit 1 c OR push_bit 3 c) AND 0xF"

definition one_hot4 :: "u16 \<Rightarrow> bool" where
  "one_hot4 c = (c = 0b0001 \<or> c = 0b0010 \<or> c = 0b0100 \<or> c = 0b1000)"

fun run_calls :: "(u16 \<times> u16) list \<Rightarrow> schedule \<Rightarrow> state \<Rightarrow> (state \<times> schedule) option" where
  "run_calls [] sched s = Some (s, sched)"
| "run_calls ((num_steps, direction) # cs) sched s =
     (case move_stepper_motor_by_step sched num_steps direction s of
        None \<Rightarrow> None
      | Some (s', rest) \<Rightarrow> run_calls cs rest s')"

definition initial :: "state \<Rightarrow> bool" where
  "initial s = (timer2_tick s = 0 \<and> old_value s = 0x03 \<and> coil_position s = 0b0001)"

fun total_steps :: "(u16 \<times> u16) list \<Rightarrow> nat" where
  "total_steps [] = 0"
| "total_steps ((num_steps, direction) # cs) = steps_of num_steps direction + total_steps cs"

fun moved_all :: "(u16 \<times> u16) list \<Rightarrow> state \<Rightarrow> state" where
  "moved_all [] s = s"
| "moved_all ((num_steps, direction) # cs) s = moved_all cs (moved num_steps direction s)"

text \<open>
  The machine after reset: the statics hold their C initialisers, the registers
  are zero, interrupts are off and no button is pressed.
\<close>

definition reset_state :: state where
  "reset_state = \<lparr>timer2_tick = 0, old_value = 0x03, coil_position = 0b0001,
     OCR2 = 0, TCCR2 = 0, TIMSK = 0, SREG_I = False, PINC = 0xFF, PORTE = 0, calls = []\<rparr>"

section \<open>Schedules: counting compare matches\<close>

lemma after_ticks_None: "after_ticks k sched = None \<longleftrightarrow> ticks_in sched < k"
  by (induction k sched rule: after_ticks.induct) (auto simp: ticks_in_def)

lemma after_ticks_Some:
  "after_ticks k sched = Some rest \<Longrightarrow>
     \<exists>used. sched = used @ rest \<and> ticks_in used = k \<and>
            (0 < k \<longrightarrow> used \<noteq> [] \<and> last used \<noteq> Quiet)"
proof (induction k sched rule: after_ticks.induct)
  case (1 sched)
  then show ?case by (auto simp: ticks_in_def)
next
  case (2 k)
  then show ?case by simp
next
  case (3 k e sched)
  show ?case
  proof (cases "e = Quiet")
    case False
    with 3 obtain used where u: "sched = used @ rest" "ticks_in used = k"
        "0 < k \<longrightarrow> used \<noteq> [] \<and> last used \<noteq> Quiet" by auto
    show ?thesis
    proof (cases "k = 0")
      case True
      with u \<open>e \<noteq> Quiet\<close> 3 show ?thesis
        by (intro exI [of _ "[e]"]) (auto simp: ticks_in_def)
    next
      case False
      with u \<open>e \<noteq> Quiet\<close> show ?thesis
        by (intro exI [of _ "e # used"]) (auto simp: ticks_in_def)
    qed
  next
    case True
    with 3 obtain used where u: "sched = used @ rest" "ticks_in used = Suc k"
        "used \<noteq> [] \<and> last used \<noteq> Quiet" by auto
    then show ?thesis using True
      by (intro exI [of _ "e # used"]) (auto simp: ticks_in_def)
  qed
qed

lemma after_ticks_add:
  "after_ticks (a + b) sched = Option.bind (after_ticks a sched) (after_ticks b)"
proof (induction a sched rule: after_ticks.induct)
  case (1 sched)
  then show ?case by simp
next
  case (2 k)
  then show ?case by simp
next
  case (3 k e sched)
  then show ?case by (cases "e = Quiet") simp_all
qed

section \<open>The two byte loads of a test\<close>

lemma word16_whole: "word16 (high_byte w) (low_byte w) = w"
  by (rule bit_word_eqI) (auto simp: word16_def high_byte_def low_byte_def bit_simps)

lemma unat_low_byte: "unat (low_byte w) = unat w mod 256"
  by (simp add: low_byte_def unsigned_ucast_eq take_bit_eq_mod)

lemma unat_high_byte: "unat (high_byte w) = unat w div 256"
proof -
  have "unat w < 65536" using unsigned_less [of w, where 'a = nat] by simp
  then have "unat w div 256 < 256" by simp
  then show ?thesis
    by (simp add: high_byte_def unsigned_ucast_eq take_bit_eq_mod
          drop_bit_eq_div unat_div)
qed

lemma div_step:
  fixes q r d :: nat
  shows "r < d \<Longrightarrow> (q * d + r) div d = q"
  by simp

lemma succ_div_256:
  fixes n :: nat
  assumes "n mod 256 \<noteq> 255"
  shows "(n + 1) div 256 = n div 256"
proof -
  have "n mod 256 < 256" by simp
  with assms have r: "n mod 256 + 1 < 256" by linarith
  have "n + 1 = n div 256 * 256 + (n mod 256 + 1)" by simp
  then have "(n + 1) div 256 = (n div 256 * 256 + (n mod 256 + 1)) div 256"
    by (rule arg_cong)
  also have "\<dots> = n div 256" using r by (rule div_step)
  finally show ?thesis .
qed

lemma high_byte_succ:
  assumes "low_byte t \<noteq> 0xFF"
  shows "high_byte (t + 1) = high_byte t"
proof -
  have "unat (low_byte t) \<noteq> unat (0xFF :: u8)"
    using assms by (simp only: word_unat_eq_iff [symmetric] not_False_eq_True)
  then have ne: "unat t mod 256 \<noteq> 255" by (simp add: unat_low_byte)
  have lt: "unat t < 65536" using unsigned_less [of t, where 'a = nat] by simp
  have "unat t \<noteq> 65535" using ne by auto
  then have s: "unat (t + 1) = unat t + 1" using lt by (simp add: unat_word_ariths)
  have "(unat t + 1) div 256 = unat t div 256" using ne by (rule succ_div_256)
  then have "unat (high_byte (t + 1)) = unat (high_byte t)"
    by (simp add: unat_high_byte s)
  then show ?thesis by (simp add: word_unat_eq_iff)
qed

text \<open>
  A compare match between the two loads leaves the value read one tick behind,
  unless the low byte wraps: then it is 256 ahead.
\<close>

lemma torn_stale:
  "low_byte t \<noteq> 0xFF \<Longrightarrow> word16 (high_byte (t + 1)) (low_byte t) = t"
  by (simp add: high_byte_succ word16_whole)

lemma low_byte_small:
  assumes "t < 255"
  shows "low_byte t \<noteq> 0xFF"
proof
  assume "low_byte t = 0xFF"
  then have "unat (low_byte t) = 255" by simp
  moreover have "unat t < 255" using assms by (simp add: word_less_nat_alt)
  ultimately show False by (simp add: unat_low_byte)
qed

lemma torn_255: "word16 (high_byte (255 + 1)) (low_byte 255) = 511"
  by (simp add: word16_def high_byte_def low_byte_def drop_bit_eq_div)

section \<open>The wait loop against the schedule\<close>

lemma word_dec:
  fixes t tv :: u16
  assumes "t < tv"
  shows "unat (tv - (t + 1)) = unat (tv - t) - 1" and "t + 1 \<le> tv"
proof -
  have lt: "unat t < unat tv" using assms by (simp add: word_less_nat_alt)
  have ub: "unat tv < 2 ^ 16" using unsigned_less [of tv] by simp
  have s: "unat (t + 1) = unat t + 1"
    using lt ub by (simp add: unat_word_ariths)
  show le: "t + 1 \<le> tv" using lt s by (simp add: word_le_nat_alt)
  have "t \<le> tv" using assms by simp
  then show "unat (tv - (t + 1)) = unat (tv - t) - 1"
    using le s by (simp add: unat_sub)
qed

lemma irq_enabled_timer2_start: "irq_enabled (timer2_start 0 s)"
  by (simp add: irq_enabled_def timer2_start_def bit_or_iff)

lemma wait_loop_char:
  "irq_enabled s \<Longrightarrow> timer2_tick s < tv \<Longrightarrow> tv \<le> 256 \<Longrightarrow>
   wait_loop sched tv s =
     map_option (\<lambda>rest. (s\<lparr>timer2_tick := tv\<rparr>, rest))
       (after_ticks (unat (tv - timer2_tick s)) sched)"
proof (induction sched arbitrary: s)
  case Nil
  then have "0 < unat (tv - timer2_tick s)"
    by (simp add: unat_gt_0)
  then obtain k where "unat (tv - timer2_tick s) = Suc k"
    by (cases "unat (tv - timer2_tick s)") auto
  then show ?case by simp
next
  case (Cons e sched)
  have en: "irq_enabled s" and lt: "timer2_tick s < tv" and small: "tv \<le> 256"
    by (rule Cons.prems)+
  have pos: "0 < unat (tv - timer2_tick s)"
    using lt by (simp add: unat_gt_0)
  have dec: "unat (tv - (timer2_tick s + 1)) = unat (tv - timer2_tick s) - 1"
    and le: "timer2_tick s + 1 \<le> tv"
    using lt by (rule word_dec)+
  obtain k where k: "unat (tv - timer2_tick s) = Suc k"
    using pos by (cases "unat (tv - timer2_tick s)") auto
  have cm: "compare_match s = s\<lparr>timer2_tick := timer2_tick s + 1\<rparr>"
    using en by (simp add: compare_match_def TIMER2_COMP_isr_def)
  have en': "irq_enabled (compare_match s)"
    using en by (simp add: cm irq_enabled_def)
  have after: "wait_loop sched tv (compare_match s) =
      map_option (\<lambda>rest. (s\<lparr>timer2_tick := tv\<rparr>, rest)) (after_ticks k sched)"
    if "timer2_tick s + 1 < tv"
  proof -
    have "timer2_tick (compare_match s) < tv" using that by (simp add: cm)
    from Cons.IH [OF en' this small] show ?thesis
      using k dec by (simp add: cm)
  qed
  have last: "k = 0 \<and> s\<lparr>timer2_tick := timer2_tick s + 1\<rparr> = s\<lparr>timer2_tick := tv\<rparr>"
    if "\<not> timer2_tick s + 1 < tv"
  proof -
    from that le have "timer2_tick s + 1 = tv" by simp
    then show ?thesis using k dec by simp
  qed
  show ?case
  proof (cases e)
    case Quiet
    then show ?thesis
      using lt k Cons.IH [OF en lt small] by (simp add: word16_whole)
  next
    case Match_before
    show ?thesis
    proof (cases "timer2_tick s + 1 < tv")
      case True
      then show ?thesis
        using Match_before k after by (simp add: cm word16_whole)
    next
      case False
      then show ?thesis
        using Match_before k last by (simp add: cm word16_whole)
    qed
  next
    case Match_within
    show ?thesis
    proof (cases "timer2_tick s = 255")
      case True
      then have "tv = 256" using lt small le by simp
      then show ?thesis
        using Match_within k True torn_255 by (simp add: cm)
    next
      case False
      have "timer2_tick s \<le> 255"
        using lt small by (simp add: word_less_nat_alt word_le_nat_alt)
      with False have "timer2_tick s < 255" by simp
      then have stale: "word16 (high_byte (timer2_tick s + 1)) (low_byte (timer2_tick s))
          = timer2_tick s"
        by (intro torn_stale low_byte_small)
      have step: "wait_loop (Match_within # sched) tv s =
          (if timer2_tick s + 1 < tv then wait_loop sched tv (compare_match s)
           else Some (compare_match s, sched))"
        using lt by (simp add: cm stale)
      show ?thesis
      proof (cases "timer2_tick s + 1 < tv")
        case True
        then show ?thesis
          unfolding Match_within step using k after by simp
      next
        case False
        then show ?thesis
          unfolding Match_within step using k last by (simp add: cm)
      qed
    qed
  qed
qed

lemma wait_loop_matches_before:
  "irq_enabled s \<Longrightarrow> unat (timer2_tick s) + k < unat tv \<Longrightarrow>
   wait_loop (replicate k Match_before @ rest) tv s =
     wait_loop rest tv (s\<lparr>timer2_tick := timer2_tick s + of_nat k\<rparr>)"
proof (induction k arbitrary: s)
  case 0
  then show ?case by simp
next
  case (Suc k)
  have cm: "compare_match s = s\<lparr>timer2_tick := timer2_tick s + 1\<rparr>"
    using Suc.prems(1) by (simp add: compare_match_def TIMER2_COMP_isr_def)
  have en: "irq_enabled (compare_match s)"
    using Suc.prems(1) by (simp add: cm irq_enabled_def)
  have ub: "unat tv < 65536" using unsigned_less [of tv, where 'a = nat] by simp
  have s1: "unat (timer2_tick s + 1) = unat (timer2_tick s) + 1"
    using Suc.prems(2) ub by (simp add: unat_word_ariths)
  have lt: "timer2_tick s + 1 < tv"
    using Suc.prems(2) s1 by (simp add: word_less_nat_alt)
  have "unat (timer2_tick (compare_match s)) + k < unat tv"
    using Suc.prems(2) s1 by (simp add: cm)
  from Suc.IH [OF en this] show ?case
    using lt by (simp add: cm word16_whole ac_simps)
qed

lemma wait_ms_char:
  assumes "0 < tv" and "tv \<le> 256"
  shows "wait_ms sched tv s =
     map_option (\<lambda>rest. (wait_done tv s, rest)) (after_ticks (unat tv) sched)"
proof -
  define s3 where
    "s3 = timer2_start 0 (s\<lparr>calls := calls s @ [Ev_wait_ms tv], OCR2 := 250, timer2_tick := 0\<rparr>)"
  have en: "irq_enabled s3" unfolding s3_def by (rule irq_enabled_timer2_start)
  have t0: "timer2_tick s3 = 0" by (simp add: s3_def timer2_start_def)
  have "wait_loop sched tv s3 =
      map_option (\<lambda>rest. (s3\<lparr>timer2_tick := tv\<rparr>, rest)) (after_ticks (unat tv) sched)"
    using wait_loop_char [OF en, of tv sched] assms by (simp add: t0)
  moreover have "wait_ms sched tv s =
      (case wait_loop sched tv s3 of None \<Rightarrow> None
       | Some (s4, rest) \<Rightarrow> Some (timer2_stop s4, rest))"
    by (simp add: wait_ms_def s3_def)
  ultimately show ?thesis
    by (cases "after_ticks (unat tv) sched") (simp_all add: wait_done_def s3_def)
qed

lemma minus_129_u8: "(- 129 :: u8) = 127"
  by simp

lemma mask_clear_set: "((x :: u8) OR 128) AND - 129 = x AND 127"
  by (simp add: word_ao_dist minus_129_u8)

lemma high_nibble_cleared: "((x :: u8) AND 0x0F) AND 0xF0 = 0"
proof -
  have "(x AND 0x0F) AND 0xF0 = x AND (0x0F AND 0xF0)"
    by (rule and.assoc)
  also have "\<dots> = 0" by simp
  finally show ?thesis .
qed

lemma wait_done_eq:
  "wait_done tv s = s\<lparr>timer2_tick := tv, OCR2 := 250, TCCR2 := 0x0B,
      TIMSK := TIMSK s AND 0x7F, SREG_I := True,
      calls := calls s @ [Ev_wait_ms tv, Ev_timer2_start 0, Ev_timer2_stop]\<rparr>"
  by (simp add: wait_done_def timer2_start_def timer2_stop_def mask_clear_set)

section \<open>The stepper loops against the schedule\<close>

lemma sint_succ:
  fixes i n :: u16
  assumes "i <s n"
  shows "sint (i + 1) = sint i + 1"
proof -
  have lt: "sint i < sint n" using assms by (simp add: word_sless_alt)
  have ub: "sint n < 2 ^ 15" using sint_lt [of n] by simp
  have lb: "- (2 ^ 15) \<le> sint i" using sint_ge [of i] by simp
  have "sint (i + 1) = signed_take_bit 15 (sint i + 1)"
    by (simp add: sint_word_ariths)
  also have "\<dots> = sint i + 1"
    using lt ub lb by (intro signed_take_bit_int_eq_self) auto
  finally show ?thesis .
qed

lemma step_body_char:
  "step_body next_pos sched s =
     map_option (\<lambda>rest. (pass_done next_pos s, rest)) (after_ticks 2 sched)"
  by (simp add: step_body_def wait_ms_char pass_done_def)

lemma for_steps_done: "\<not> i <s n \<Longrightarrow> for_steps body i n sched s = Some (s, sched)"
  by (subst for_steps.simps) simp

lemma for_steps_char:
  "sint i \<le> sint n \<Longrightarrow> nat (sint n - sint i) = k \<Longrightarrow>
   for_steps (step_body next_pos) i n sched s =
     map_option (\<lambda>rest. ((pass_done next_pos ^^ k) s, rest)) (after_ticks (2 * k) sched)"
proof (induction k arbitrary: i sched s)
  case 0
  then have "\<not> i <s n" by (simp add: word_sless_alt)
  then show ?case by (simp add: for_steps_done)
next
  case (Suc k)
  then have lt: "i <s n" by (simp add: word_sless_alt)
  have si: "sint (i + 1) = sint i + 1" using lt by (rule sint_succ)
  have le: "sint (i + 1) \<le> sint n" using lt si by (simp add: word_sless_alt)
  have k: "nat (sint n - sint (i + 1)) = k" using Suc.prems si by simp
  have split: "after_ticks (Suc (Suc (2 * k))) sched =
      Option.bind (after_ticks 2 sched) (after_ticks (2 * k))"
    using after_ticks_add [of 2 "2 * k" sched] by simp
  have unf: "for_steps (step_body next_pos) i n sched s =
      (case step_body next_pos sched s of None \<Rightarrow> None
       | Some (s', sched') \<Rightarrow> for_steps (step_body next_pos) (i + 1) n sched' s')"
    using lt by (subst for_steps.simps) simp
  have sb: "step_body next_pos sched s =
      map_option (\<lambda>rest. (pass_done next_pos s, rest)) (after_ticks 2 sched)"
    by (rule step_body_char)
  show ?case
  proof (cases "after_ticks 2 sched")
    case None
    then show ?thesis by (simp add: unf sb split)
  next
    case (Some r)
    then show ?thesis
      using Suc.IH [OF le k, of r "pass_done next_pos s"]
      by (simp add: unf sb split funpow_swap1)
  qed
qed

lemma for_steps_from_0:
  "for_steps (step_body next_pos) 0 n sched s =
     map_option (\<lambda>rest. ((pass_done next_pos ^^ nat (sint n)) s, rest))
       (after_ticks (2 * nat (sint n)) sched)"
proof (cases "0 \<le> sint n")
  case True
  then show ?thesis using for_steps_char [of 0 n "nat (sint n)" next_pos sched s] by simp
next
  case False
  then have "\<not> 0 <s n" by (simp add: word_sless_alt)
  then show ?thesis using False by (simp add: for_steps_done)
qed

lemma move_char:
  "move_stepper_motor_by_step sched n d s =
     map_option (\<lambda>rest. (moved n d s, rest)) (after_ticks (2 * steps_of n d) sched)"
proof -
  consider "d = 1" | "d \<noteq> 1" "d = - 1" | "d \<noteq> 1" "d \<noteq> - 1" by blast
  then show ?thesis
  proof cases
    case 1
    then show ?thesis
      by (cases "after_ticks (2 * nat (sint n)) sched")
         (simp_all add: move_stepper_motor_by_step_def for_steps_from_0 moved_def
            steps_of_def next_of_def Let_def)
  next
    case 2
    then show ?thesis
      by (cases "after_ticks (2 * nat (sint n)) sched")
         (simp_all add: move_stepper_motor_by_step_def for_steps_from_0 moved_def
            steps_of_def next_of_def Let_def)
  next
    case 3
    then show ?thesis
      by (simp add: move_stepper_motor_by_step_def moved_def steps_of_def)
  qed
qed

lemma pass_done_eq:
  "pass_done nx s = s\<lparr>coil_position := nx (coil_position s),
      PORTE := (PORTE s AND 0x0F) OR ucast (push_bit 4 (nx (coil_position s))),
      timer2_tick := 2, OCR2 := 250, TCCR2 := 0x0B,
      TIMSK := TIMSK s AND 0x7F, SREG_I := True,
      calls := calls s @ [Ev_wait_ms 2, Ev_timer2_start 0, Ev_timer2_stop]\<rparr>"
  by (simp add: pass_done_def wait_done_eq)

lemma coil_passes: "coil_position ((pass_done nx ^^ k) s) = (nx ^^ k) (coil_position s)"
  by (induction k) (simp_all add: pass_done_eq)

lemma coil_moved:
  "coil_position (moved n d s) = (next_of d ^^ steps_of n d) (coil_position s)"
  by (simp add: moved_def Let_def coil_passes)

lemma PORTE_moved: "PORTE (moved n d s) AND 0xF0 = 0"
  by (simp add: moved_def Let_def high_nibble_cleared)

lemma moved_0: "steps_of n d = 0 \<Longrightarrow> moved n d s = s\<lparr>PORTE := PORTE s AND 0x0F\<rparr>"
  by (simp add: moved_def)

section \<open>The blocking wait: claims C1 and C2\<close>

text \<open>
  C1, as the code has it: \<open>wait_ms(0)\<close> returns at the first test of its loop
  condition, without waiting for a tick. The timer driver is started all the
  same: \<open>timer2_start(0)\<close> and \<open>timer2_stop\<close> are invoked, \<open>OCR2\<close> becomes 250,
  \<open>TCCR2\<close> ends as \<open>0x0B\<close>, bit 7 of \<open>TIMSK\<close> ends cleared with its other
  bits as before, and interrupts are left globally enabled. The tick counter is
  0, or 1 when a compare match came before or within that test.
\<close>

theorem C1_wait_zero_starts_timer:
  "wait_ms (e # sched) 0 s =
     Some (s\<lparr>timer2_tick := (if e = Quiet then 0 else 1), OCR2 := 250, TCCR2 := 0x0B,
              TIMSK := TIMSK s AND 0x7F, SREG_I := True,
              calls := calls s @ [Ev_wait_ms 0, Ev_timer2_start 0, Ev_timer2_stop]\<rparr>,
           sched)"
  by (cases e)
     (simp_all add: wait_ms_def timer2_start_def timer2_stop_def compare_match_def
        irq_enabled_def TIMER2_COMP_isr_def bit_or_iff mask_clear_set)

text \<open>
  C1 as stated fails: from the reset state \<open>wait_ms(0)\<close> invokes
  \<open>timer2_start\<close>, and changes \<open>OCR2\<close> from 0 to 250 and \<open>TCCR2\<close> from 0 to
  \<open>0x0B\<close>.
\<close>

theorem C1_counterexample:
  "wait_ms [Quiet] 0 reset_state =
     Some (reset_state\<lparr>OCR2 := 250, TCCR2 := 0x0B, SREG_I := True,
              calls := [Ev_wait_ms 0, Ev_timer2_start 0, Ev_timer2_stop]\<rparr>, []) \<and>
   Ev_timer2_start 0 \<in> set (calls (fst (the (wait_ms [Quiet] 0 reset_state)))) \<and>
   OCR2 (fst (the (wait_ms [Quiet] 0 reset_state))) \<noteq> OCR2 reset_state \<and>
   TCCR2 (fst (the (wait_ms [Quiet] 0 reset_state))) \<noteq> TCCR2 reset_state"
  by (simp add: wait_ms_def timer2_start_def timer2_stop_def reset_state_def)

text \<open>
  For a duration from 1 to 256 the wait does what its comment says: it has not
  returned as long as the schedule has delivered fewer compare matches than the
  duration, and once the schedule holds that many it returns, having used
  exactly that many, the last of them at its last test, with the counter equal
  to the duration.
\<close>

lemma wait_ms_returns_at_tick_upto_256:
  assumes "1 \<le> tv" and "tv \<le> 256"
  shows "case wait_ms sched tv s of
           None \<Rightarrow> ticks_in sched < unat tv
         | Some (s', rest) \<Rightarrow>
             timer2_tick s' = tv \<and>
             (\<exists>used. sched = used @ rest \<and> ticks_in used = unat tv \<and>
                     used \<noteq> [] \<and> last used \<noteq> Quiet)"
proof -
  have pos: "0 < tv" using assms(1) by (simp add: word_less_nat_alt word_le_nat_alt)
  note char = wait_ms_char [OF pos assms(2)]
  show ?thesis
  proof (cases "after_ticks (unat tv) sched")
    case None
    then have "ticks_in sched < unat tv" by (simp add: after_ticks_None)
    then show ?thesis using None by (simp add: char)
  next
    case (Some rest)
    have "0 < unat tv" using assms(1) by (simp add: word_le_nat_alt)
    with after_ticks_Some [OF Some] obtain used where
      "sched = used @ rest" "ticks_in used = unat tv" "used \<noteq> []" "last used \<noteq> Quiet"
      by auto
    then show ?thesis using Some
      by (auto simp: char wait_done_eq)
  qed
qed

text \<open>
  C2 says that for every duration of at least 1 the wait never returns before
  the tick counter has reached the duration. The code breaks this for
  \<open>wait_ms(300)\<close>: with the counter at 255 (\<open>0x00FF\<close>) a compare match between
  the two byte loads of a test makes the test read the low byte \<open>0xFF\<close> of 255
  and the high byte \<open>0x01\<close> of 256, that is 511, which is not below 300. The
  loop ends and \<open>wait_ms\<close> returns with the counter at 256, 44 ticks early.
\<close>

theorem C2_wait_ms_300_returns_at_256:
  "wait_ms (replicate 255 Match_before @ [Match_within]) 300 reset_state =
     Some (reset_state\<lparr>timer2_tick := 256, OCR2 := 250, TCCR2 := 0x0B, SREG_I := True,
              calls := [Ev_wait_ms 300, Ev_timer2_start 0, Ev_timer2_stop]\<rparr>, []) \<and>
   timer2_tick (fst (the (wait_ms (replicate 255 Match_before @ [Match_within]) 300
      reset_state))) < 300"
proof -
  define s3 where "s3 = timer2_start 0
    (reset_state\<lparr>calls := calls reset_state @ [Ev_wait_ms 300], OCR2 := 250, timer2_tick := 0\<rparr>)"
  have en: "irq_enabled s3" unfolding s3_def by (rule irq_enabled_timer2_start)
  have t0: "timer2_tick s3 = 0" by (simp add: s3_def timer2_start_def)
  have en255: "irq_enabled (s3\<lparr>timer2_tick := 255\<rparr>)"
    using en by (simp add: irq_enabled_def)
  have run: "wait_loop (replicate 255 Match_before @ [Match_within]) 300 s3 =
      wait_loop [Match_within] 300 (s3\<lparr>timer2_tick := timer2_tick s3 + of_nat 255\<rparr>)"
    by (rule wait_loop_matches_before [OF en]) (simp add: t0)
  have at255: "s3\<lparr>timer2_tick := timer2_tick s3 + of_nat 255\<rparr> = s3\<lparr>timer2_tick := 255\<rparr>"
    by (simp add: t0)
  have torn: "wait_loop [Match_within] 300 (s3\<lparr>timer2_tick := 255\<rparr>) =
      Some (s3\<lparr>timer2_tick := 256\<rparr>, [])"
    using en255 torn_255 by (simp add: compare_match_def TIMER2_COMP_isr_def)
  have st: "timer2_stop (s3\<lparr>timer2_tick := 256\<rparr>) =
      reset_state\<lparr>timer2_tick := 256, OCR2 := 250, TCCR2 := 0x0B, SREG_I := True,
        calls := [Ev_wait_ms 300, Ev_timer2_start 0, Ev_timer2_stop]\<rparr>"
    by (simp add: s3_def timer2_start_def timer2_stop_def reset_state_def)
  have "wait_ms (replicate 255 Match_before @ [Match_within]) 300 reset_state =
      Some (reset_state\<lparr>timer2_tick := 256, OCR2 := 250, TCCR2 := 0x0B, SREG_I := True,
              calls := [Ev_wait_ms 300, Ev_timer2_start 0, Ev_timer2_stop]\<rparr>, [])"
    unfolding wait_ms_def Let_def s3_def [symmetric] run at255 torn
    by (simp only: option.case prod.case st)
  then show ?thesis by simp
qed

section \<open>The button reader: claim C7\<close>

lemma pressed_iff: "(drop_bit n (w :: u8) AND 1 = 0) \<longleftrightarrow> \<not> bit w n"
  by (simp add: and_one_eq bit_iff_odd_drop_bit even_iff_mod_2_eq_zero)

lemma scan_buttons_none:
  "- 1 \<le> shift \<Longrightarrow> (\<And>k. int k \<le> shift \<Longrightarrow> bit (PINC s) k) \<Longrightarrow>
   scan_buttons shift s = - 1"
proof (induction shift s rule: scan_buttons.induct)
  case (1 shift s)
  show ?case
  proof (cases "- 1 < shift")
    case True
    then have "bit (PINC s) (nat shift)" using "1.prems"(2) [of "nat shift"] by simp
    then have np: "drop_bit (nat shift) (PINC s) AND 1 \<noteq> 0" by (simp add: pressed_iff)
    have "scan_buttons (shift - 1) s = - 1"
      using True np "1.prems"(2) by (intro "1.IH") auto
    then show ?thesis using True np by (subst scan_buttons.simps) simp
  next
    case False
    then show ?thesis using "1.prems"(1) by (subst scan_buttons.simps) simp
  qed
qed

lemma scan_buttons_found:
  "int k \<le> shift \<Longrightarrow> \<not> bit (PINC s) k \<Longrightarrow>
   (\<And>j. k < j \<Longrightarrow> int j \<le> shift \<Longrightarrow> bit (PINC s) j) \<Longrightarrow>
   scan_buttons shift s = int k"
proof (induction shift s rule: scan_buttons.induct)
  case (1 shift s)
  have pos: "- 1 < shift" using "1.prems"(1) by simp
  show ?case
  proof (cases "int k = shift")
    case True
    then have "nat shift = k" by simp
    then have "drop_bit (nat shift) (PINC s) AND 1 = 0"
      using "1.prems"(2) by (simp add: pressed_iff)
    then show ?thesis using pos True by (subst scan_buttons.simps) simp
  next
    case False
    then have lt: "k < nat shift" "int k \<le> shift - 1" using "1.prems"(1) by auto
    have "bit (PINC s) (nat shift)" using "1.prems"(3) [of "nat shift"] lt pos by simp
    then have np: "drop_bit (nat shift) (PINC s) AND 1 \<noteq> 0" by (simp add: pressed_iff)
    have "scan_buttons (shift - 1) s = int k"
      using pos np lt "1.prems"(2,3) by (intro "1.IH") auto
    then show ?thesis using pos np by (subst scan_buttons.simps) simp
  qed
qed

lemma low6_bit:
  "k < 6 \<Longrightarrow> bit (PINC s) k = bit (PINC s AND 0x3F) k"
proof -
  assume "k < 6"
  then have "bit (mask 6 :: u8) k" by (simp add: bit_mask_iff)
  then have "bit (0x3F :: u8) k" by (simp add: mask_eq_exp_minus_1)
  then show ?thesis by (simp add: bit_and_iff)
qed

text \<open>
  C7: \<open>read_push_buttons\<close> returns 0 when none of the six inputs reads 0, and
  \<open>k + 1\<close> for the highest shift index \<open>k\<close> below 6 whose input reads 0: the
  scan runs from index 5 down and stops at the first pressed button it meets, so
  the highest index wins among simultaneous presses. Only index 3 pressed gives
  4; indices 5 and 0 pressed together give 6. The two encoder bits do not matter.
\<close>

theorem C7_read_push_buttons:
  "((\<forall>k<6. bit (PINC s) k) \<longrightarrow> read_push_buttons s = 0) \<and>
   (\<forall>k<6. \<not> bit (PINC s) k \<and> (\<forall>j. k < j \<and> j < 6 \<longrightarrow> bit (PINC s) j) \<longrightarrow>
        read_push_buttons s = of_nat (k + 1)) \<and>
   (PINC s AND 0x3F = 0b110111 \<longrightarrow> read_push_buttons s = 4) \<and>
   (PINC s AND 0x3F = 0b011110 \<longrightarrow> read_push_buttons s = 6)"
proof (intro conjI allI impI)
  assume "\<forall>k<6. bit (PINC s) k"
  then have "scan_buttons 5 s = - 1" by (intro scan_buttons_none) auto
  then show "read_push_buttons s = 0" by (simp add: read_push_buttons_def)
next
  fix k :: nat
  assume k: "k < 6" and h: "\<not> bit (PINC s) k \<and> (\<forall>j. k < j \<and> j < 6 \<longrightarrow> bit (PINC s) j)"
  have "scan_buttons 5 s = int k" using k h by (intro scan_buttons_found) auto
  then show "read_push_buttons s = of_nat (k + 1)" by (simp add: read_push_buttons_def)
next
  assume a: "PINC s AND 0x3F = 0b110111"
  have "scan_buttons 5 s = int 3"
  proof (rule scan_buttons_found)
    show "int 3 \<le> 5" by simp
    show "\<not> bit (PINC s) 3" using low6_bit [of 3 s] a by simp
    fix j :: nat assume "3 < j" "int j \<le> 5"
    then have "j = 4 \<or> j = 5" by auto
    then show "bit (PINC s) j" using low6_bit [of j s] a by auto
  qed
  then show "read_push_buttons s = 4" by (simp add: read_push_buttons_def)
next
  assume a: "PINC s AND 0x3F = 0b011110"
  have "scan_buttons 5 s = int 5"
  proof (rule scan_buttons_found)
    show "int 5 \<le> 5" by simp
    show "\<not> bit (PINC s) 5" using low6_bit [of 5 s] a by simp
    fix j :: nat assume "5 < j" "int j \<le> 5"
    then show "bit (PINC s) j" by simp
  qed
  then show "read_push_buttons s = 6" by (simp add: read_push_buttons_def)
qed

theorem C7_witness:
  "PINC (reset_state\<lparr>PINC := 0xF7\<rparr>) AND 0x3F = 0b110111 \<and>
   read_push_buttons (reset_state\<lparr>PINC := 0xF7\<rparr>) = 4"
  using C7_read_push_buttons [where s = "reset_state\<lparr>PINC := 0xF7\<rparr>"]
  by (simp add: reset_state_def)

section \<open>The shaft encoder reader: claim C8\<close>

text \<open>
  C8: \<open>read_shaft_encoder\<close> returns +1 exactly when the stored previous state
  is 11 and the observed pattern is 01, -1 exactly when the previous state is 11
  and the pattern is 10, and 0 in every other case. The previous state becomes
  the observed pattern on every call. So after a call that returns +1 on the
  pattern 01, the next call observing 01 again returns 0.
\<close>

theorem C8_read_shaft_encoder:
  "read_shaft_encoder s =
     ((if old_value s = 0b11 \<and> drop_bit 6 (PINC s) = 0b01 then 1
       else if old_value s = 0b11 \<and> drop_bit 6 (PINC s) = 0b10 then - 1
       else 0),
      s\<lparr>old_value := drop_bit 6 (PINC s)\<rparr>) \<and>
   (old_value s = 0b11 \<and> drop_bit 6 (PINC s) = 0b01 \<and> drop_bit 6 p = 0b01 \<longrightarrow>
      fst (read_shaft_encoder s) = 1 \<and>
      old_value (snd (read_shaft_encoder s)) = 0b01 \<and>
      fst (read_shaft_encoder ((snd (read_shaft_encoder s))\<lparr>PINC := p\<rparr>)) = 0)"
  by (auto simp: read_shaft_encoder_def Let_def)

theorem C8_witness:
  "old_value (reset_state\<lparr>PINC := 0x7F\<rparr>) = 0b11 \<and>
   drop_bit 6 (PINC (reset_state\<lparr>PINC := 0x7F\<rparr>)) = 0b01 \<and>
   drop_bit 6 (0x7F :: u8) = 0b01 \<and>
   fst (read_shaft_encoder (reset_state\<lparr>PINC := 0x7F\<rparr>)) = 1 \<and>
   old_value (snd (read_shaft_encoder (reset_state\<lparr>PINC := 0x7F\<rparr>))) = 0b01 \<and>
   fst (read_shaft_encoder
          ((snd (read_shaft_encoder (reset_state\<lparr>PINC := 0x7F\<rparr>)))\<lparr>PINC := 0x7F\<rparr>)) = 0"
  using C8_read_shaft_encoder [where s = "reset_state\<lparr>PINC := 0x7F\<rparr>" and p = "0x7F"]
  by (simp add: reset_state_def read_shaft_encoder_def drop_bit_eq_div)

section \<open>Starting the timer with another unit: claim C9\<close>

text \<open>
  C9: for a unit other than 0 and 1, \<open>timer2_start\<close> resets the tick counter
  and sets the global interrupt flag, and that is all: \<open>TCCR2\<close> and \<open>TIMSK\<close>
  stay as they were, so the call neither configures the timer nor enables its
  compare-match interrupt, which is enabled afterwards only if bit 7 of
  \<open>TIMSK\<close> was set before.
\<close>

theorem C9_timer2_start_other_unit:
  assumes "unit \<noteq> 0" and "unit \<noteq> 1"
  shows "timer2_start unit s =
           s\<lparr>timer2_tick := 0, SREG_I := True, calls := calls s @ [Ev_timer2_start unit]\<rparr> \<and>
         timer2_tick (timer2_start unit s) = 0 \<and>
         SREG_I (timer2_start unit s) \<and>
         TCCR2 (timer2_start unit s) = TCCR2 s \<and>
         TIMSK (timer2_start unit s) = TIMSK s \<and>
         irq_enabled (timer2_start unit s) = bit (TIMSK s) 7"
  using assms by (simp add: timer2_start_def irq_enabled_def)

theorem C9_witness:
  "(2 :: u8) \<noteq> 0 \<and> (2 :: u8) \<noteq> 1 \<and>
   timer2_start 2 reset_state =
     reset_state\<lparr>SREG_I := True, calls := [Ev_timer2_start 2]\<rparr> \<and>
   \<not> irq_enabled (timer2_start 2 reset_state)"
  using C9_timer2_start_other_unit [where unit = 2 and s = reset_state]
  by (simp add: reset_state_def timer2_start_def irq_enabled_def)

section \<open>The stepper sequencer: claims C3 to C6 and C10\<close>

lemma coil_after_char:
  "2 * steps_of n d \<le> ticks_in sched \<Longrightarrow>
   coil_after sched n d s = Some ((next_of d ^^ steps_of n d) (coil_position s))"
proof -
  assume "2 * steps_of n d \<le> ticks_in sched"
  then have "after_ticks (2 * steps_of n d) sched \<noteq> None"
    by (simp add: after_ticks_None)
  then obtain rest where "after_ticks (2 * steps_of n d) sched = Some rest" by auto
  then show ?thesis by (simp add: coil_after_def move_char coil_moved)
qed

lemma one_hot4_next: "one_hot4 c \<Longrightarrow> one_hot4 (next_of d c)"
  by (auto simp: one_hot4_def next_of_def cw_next_def ccw_next_def)

lemma one_hot4_funpow: "one_hot4 c \<Longrightarrow> one_hot4 ((next_of d ^^ k) c)"
  by (induction k) (simp_all add: one_hot4_next)

lemma cw_table:
  "cw_next 1 = 2" "cw_next 2 = 4" "cw_next 4 = 8" "cw_next 8 = 1"
  by (simp_all add: cw_next_def)

lemma ccw_table:
  "ccw_next 1 = 8" "ccw_next 8 = 4" "ccw_next 4 = 2" "ccw_next 2 = 1"
  by (simp_all add: ccw_next_def)

lemma steps_numerals:
  "steps_of 1 1 = 1" "steps_of 2 1 = 2" "steps_of 3 1 = 3" "steps_of 4 1 = 4"
  "steps_of 1 (- 1) = 1" "steps_of 2 (- 1) = 2" "steps_of 3 (- 1) = 3" "steps_of 4 (- 1) = 4"
  by (simp_all add: steps_of_def)

lemma next_of_dirs: "next_of 1 = cw_next" "next_of (- 1) = ccw_next"
  by (simp_all add: next_of_def)

lemma funpow_small:
  "(f ^^ Suc 0) x = f x" "(f ^^ 2) x = f (f x)" "(f ^^ 3) x = f (f (f x))"
  "(f ^^ 4) x = f (f (f (f x)))"
  by (simp_all add: numeral_eq_Suc)

lemma four_steps:
  "one_hot4 c \<Longrightarrow> (cw_next ^^ 4) c = c \<and> (ccw_next ^^ 4) c = c"
  by (auto simp: one_hot4_def funpow_small cw_table ccw_table)

lemma next_is_rotation:
  "one_hot4 c \<Longrightarrow> cw_next c = rotate4_left c \<and> ccw_next c = rotate4_right c"
  by (auto simp: one_hot4_def cw_table ccw_table rotate4_left_def rotate4_right_def
        push_bit_eq_mult drop_bit_eq_div)

text \<open>
  C3: given the ticks for four steps, one step clockwise takes a one-hot coil
  position to its rotation by one position to the left within four bits, and
  one step counterclockwise to its rotation to the right. From 0001 the
  positions after 1, 2, 3 and 4 clockwise steps are 0010, 0100, 1000, 0001, and
  after 1, 2, 3 and 4 counterclockwise steps 1000, 0100, 0010, 0001. Four steps
  in either direction from a one-hot position lead back to it.
\<close>

theorem C3_coil_rotation:
  assumes "8 \<le> ticks_in sched"
  shows "(coil_position s = 0b0001 \<longrightarrow>
            map (\<lambda>n. coil_after sched n 1 s) [1, 2, 3, 4] =
              [Some 0b0010, Some 0b0100, Some 0b1000, Some 0b0001] \<and>
            map (\<lambda>n. coil_after sched n (- 1) s) [1, 2, 3, 4] =
              [Some 0b1000, Some 0b0100, Some 0b0010, Some 0b0001]) \<and>
         (one_hot4 (coil_position s) \<longrightarrow>
            coil_after sched 1 1 s = Some (rotate4_left (coil_position s)) \<and>
            coil_after sched 1 (- 1) s = Some (rotate4_right (coil_position s)) \<and>
            coil_after sched 4 1 s = Some (coil_position s) \<and>
            coil_after sched 4 (- 1) s = Some (coil_position s))"
proof -
  have ca: "coil_after sched n d s = Some ((next_of d ^^ steps_of n d) (coil_position s))"
    if "steps_of n d \<le> 4" for n d
    using that assms by (intro coil_after_char) simp
  show ?thesis
    using four_steps [of "coil_position s"] next_is_rotation [of "coil_position s"]
    by (simp add: ca steps_numerals next_of_dirs funpow_small cw_table ccw_table)
qed

theorem C3_witness:
  "8 \<le> ticks_in (replicate 8 Match_before) \<and>
   coil_position reset_state = 0b0001 \<and>
   map (\<lambda>n. coil_after (replicate 8 Match_before) n 1 reset_state) [1, 2, 3, 4] =
     [Some 0b0010, Some 0b0100, Some 0b1000, Some 0b0001] \<and>
   map (\<lambda>n. coil_after (replicate 8 Match_before) n (- 1) reset_state) [1, 2, 3, 4] =
     [Some 0b1000, Some 0b0100, Some 0b0010, Some 0b0001]"
  using C3_coil_rotation [where sched = "replicate 8 Match_before" and s = reset_state]
  by (simp add: ticks_in_def reset_state_def)

lemma run_calls_char:
  "run_calls cs sched s =
     map_option (\<lambda>rest. (moved_all cs s, rest)) (after_ticks (2 * total_steps cs) sched)"
proof (induction cs arbitrary: sched s)
  case Nil
  then show ?case by simp
next
  case (Cons c cs)
  obtain n d where c: "c = (n, d)" by (cases c)
  have split: "after_ticks (2 * total_steps (c # cs)) sched =
      Option.bind (after_ticks (2 * steps_of n d) sched) (after_ticks (2 * total_steps cs))"
    using after_ticks_add [of "2 * steps_of n d" "2 * total_steps cs" sched]
    by (simp add: c distrib_left)
  show ?case
  proof (cases "after_ticks (2 * steps_of n d) sched")
    case None
    then show ?thesis unfolding split by (simp add: c move_char)
  next
    case (Some r)
    then show ?thesis unfolding split by (simp add: c move_char Cons.IH)
  qed
qed

lemma one_hot4_moved_all:
  "one_hot4 (coil_position s) \<Longrightarrow> one_hot4 (coil_position (moved_all cs s))"
proof (induction cs arbitrary: s)
  case Nil
  then show ?case by simp
next
  case (Cons c cs)
  obtain n d where c: "c = (n, d)" by (cases c)
  have "one_hot4 (coil_position (moved n d s))"
    using Cons.prems by (simp add: coil_moved one_hot4_funpow)
  then show ?case using Cons.IH by (simp add: c)
qed

text \<open>
  C4: the coil position starts as 0001, and after any sequence of calls of
  \<open>move_stepper_motor_by_step\<close>, with any step counts and directions, it is one
  of 0001, 0010, 0100, 1000. The sequence of calls returns unless the schedule
  holds fewer than two ticks for each step.
\<close>

theorem C4_coil_position_one_hot:
  assumes "initial s"
  shows "coil_position s = 0b0001 \<and>
         (case run_calls cs sched s of
            None \<Rightarrow> ticks_in sched < 2 * total_steps cs
          | Some (s', rest) \<Rightarrow> coil_position s' \<in> {0b0001, 0b0010, 0b0100, 0b1000})"
proof -
  have c1: "coil_position s = 1" using assms by (simp add: initial_def)
  then have "one_hot4 (coil_position (moved_all cs s))"
    by (intro one_hot4_moved_all) (simp add: one_hot4_def)
  then have oh: "coil_position (moved_all cs s) \<in> {0b0001, 0b0010, 0b0100, 0b1000}"
    by (auto simp: one_hot4_def)
  show ?thesis
  proof (cases "after_ticks (2 * total_steps cs) sched")
    case None
    then have "ticks_in sched < 2 * total_steps cs" by (simp add: after_ticks_None)
    then show ?thesis using None c1 by (simp add: run_calls_char)
  next
    case (Some rest)
    then show ?thesis using c1 oh by (simp add: run_calls_char)
  qed
qed

theorem C4_witness:
  "initial reset_state \<and>
   (case run_calls [(1, 1), (3, - 1), (5, 7)] (replicate 8 Match_before) reset_state of
      None \<Rightarrow> False
    | Some (s', rest) \<Rightarrow> coil_position s' \<in> {0b0001, 0b0010, 0b0100, 0b1000})"
  using C4_coil_position_one_hot
    [where s = reset_state and cs = "[(1, 1), (3, - 1), (5, 7)]" and sched = "replicate 8 Match_before"]
  by (cases "run_calls [(1, 1), (3, - 1), (5, 7)] (replicate 8 Match_before) reset_state")
     (simp_all add: initial_def reset_state_def ticks_in_def steps_of_def)

text \<open>
  C5: whenever a call of \<open>move_stepper_motor_by_step\<close> returns, for any step
  count and any direction, the high nibble of \<open>PORTE\<close> is zero. The call returns
  unless the schedule holds fewer than two ticks for each step it takes.
\<close>

theorem C5_coil_pins_cleared:
  "case move_stepper_motor_by_step sched num_steps direction s of
     None \<Rightarrow> ticks_in sched < 2 * steps_of num_steps direction
   | Some (s', rest) \<Rightarrow> PORTE s' AND 0xF0 = 0"
proof (cases "after_ticks (2 * steps_of num_steps direction) sched")
  case None
  then have "ticks_in sched < 2 * steps_of num_steps direction"
    by (simp add: after_ticks_None)
  then show ?thesis using None by (simp add: move_char)
next
  case (Some rest)
  then show ?thesis by (simp add: move_char PORTE_moved)
qed

theorem C5_witness:
  "case move_stepper_motor_by_step (replicate 6 Match_before) 3 1 (reset_state\<lparr>PORTE := 0xA5\<rparr>) of
     None \<Rightarrow> False
   | Some (s', rest) \<Rightarrow> PORTE s' AND 0xF0 = 0"
  using C5_coil_pins_cleared
    [where sched = "replicate 6 Match_before" and num_steps = 3 and direction = 1
       and s = "reset_state\<lparr>PORTE := 0xA5\<rparr>"]
  by (cases "move_stepper_motor_by_step (replicate 6 Match_before) 3 1 (reset_state\<lparr>PORTE := 0xA5\<rparr>)")
     (simp_all add: ticks_in_def steps_of_def)

text \<open>
  C6: for a direction other than +1 and -1 the call returns at once, for every
  schedule and using none of it, in the state it was called in except that the
  high nibble of \<open>PORTE\<close> is cleared: the coil position is unchanged and the call
  log is unchanged, so no wait was made.
\<close>

theorem C6_other_direction_no_steps:
  assumes "direction \<noteq> 1" and "direction \<noteq> - 1"
  shows "move_stepper_motor_by_step sched num_steps direction s =
           Some (s\<lparr>PORTE := PORTE s AND 0x0F\<rparr>, sched) \<and>
         coil_position (s\<lparr>PORTE := PORTE s AND 0x0F\<rparr>) = coil_position s \<and>
         calls (s\<lparr>PORTE := PORTE s AND 0x0F\<rparr>) = calls s \<and>
         PORTE (s\<lparr>PORTE := PORTE s AND 0x0F\<rparr>) AND 0xF0 = 0"
  using assms by (simp add: move_stepper_motor_by_step_def high_nibble_cleared)

theorem C6_witness:
  "(7 :: u16) \<noteq> 1 \<and> (7 :: u16) \<noteq> - 1 \<and>
   move_stepper_motor_by_step [Match_before, Match_before] 5 7 (reset_state\<lparr>PORTE := 0xA5\<rparr>) =
     Some (reset_state\<lparr>PORTE := 0x05\<rparr>, [Match_before, Match_before])"
  using C6_other_direction_no_steps
    [where direction = 7 and sched = "[Match_before, Match_before]" and num_steps = 5
       and s = "reset_state\<lparr>PORTE := 0xA5\<rparr>"]
  by (simp add: reset_state_def)

text \<open>
  C10: for a step count of zero or below and a direction of +1 or -1 the loop
  makes no pass: the call returns at once, for every schedule and using none of
  it, in the state it was called in except that the high nibble of \<open>PORTE\<close> is
  cleared. The coil position and the call log are unchanged: no wait was made.
\<close>

theorem C10_no_steps_for_nonpositive:
  assumes "sint num_steps \<le> 0" and "direction = 1 \<or> direction = - 1"
  shows "move_stepper_motor_by_step sched num_steps direction s =
           Some (s\<lparr>PORTE := PORTE s AND 0x0F\<rparr>, sched) \<and>
         coil_position (s\<lparr>PORTE := PORTE s AND 0x0F\<rparr>) = coil_position s \<and>
         calls (s\<lparr>PORTE := PORTE s AND 0x0F\<rparr>) = calls s"
proof -
  have "steps_of num_steps direction = 0" using assms by (simp add: steps_of_def)
  then show ?thesis by (simp add: move_char moved_0)
qed

theorem C10_witness:
  "sint (- 3 :: u16) \<le> 0 \<and>
   move_stepper_motor_by_step [Match_before, Match_before] (- 3) 1 (reset_state\<lparr>PORTE := 0xA5\<rparr>) =
     Some (reset_state\<lparr>PORTE := 0x05\<rparr>, [Match_before, Match_before])"
  using C10_no_steps_for_nonpositive
    [where num_steps = "- 3" and direction = 1 and sched = "[Match_before, Match_before]"
       and s = "reset_state\<lparr>PORTE := 0xA5\<rparr>"]
  by (simp add: reset_state_def)

end
